theory Spec2Isabelle
  imports Main "HOL-Library.Word"
begin

unbundle bit_operations_syntax

section \<open>Python values\<close>

text \<open>
  The decoder is \<^verbatim>\<open>PNGReader/src/test2.py\<close>. Its data are Python \<^verbatim>\<open>bytes\<close> and
  \<^verbatim>\<open>bytearray\<close> objects, whose elements are the integers 0..255: a byte is an
  \<open>8 word\<close>, and reading one (\<^verbatim>\<open>data[i]\<close>) gives the unbounded integer \<open>uint\<close> of it.
  Sizes, indices and the unsigned header fields are \<open>nat\<close> (the width and height that
  the engine is called with are two of those fields). An exception is a value
  \<open>Inl e\<close> of a sum type. \<^verbatim>\<open>print\<close> writes to standard output, which no caller
  receives, so it is left out of the results.
\<close>

type_synonym byte = "8 word"

datatype py_error = IndexError | TypeError | StructError | UnicodeDecodeError

definition and_then :: "py_error + 'a \<Rightarrow> ('a \<Rightarrow> py_error + 'b) \<Rightarrow> py_error + 'b" where
  "and_then r k = (case r of Inl e \<Rightarrow> Inl e | Inr x \<Rightarrow> k x)"

text \<open>Storing \<^verbatim>\<open>n & 0xFF\<close> into a bytearray cell.\<close>

definition byte_of_int :: "int \<Rightarrow> byte" where
  "byte_of_int n = word_of_int n"

text \<open>\<^verbatim>\<open>data[i]\<close> for an index \<open>i \<ge> 0\<close>: IndexError past the end.\<close>

definition get_byte :: "byte list \<Rightarrow> nat \<Rightarrow> py_error + int" where
  "get_byte xs i = (if i < length xs then Inr (uint (xs ! i)) else Inl IndexError)"

text \<open>\<^verbatim>\<open>data[lo:hi]\<close> for \<open>0 \<le> lo\<close>, \<open>0 \<le> hi\<close>: a slice is cut at the end, it never raises.\<close>

definition py_slice :: "'a list \<Rightarrow> nat \<Rightarrow> nat \<Rightarrow> 'a list" where
  "py_slice xs lo hi = drop lo (take hi xs)"

text \<open>
  \<^verbatim>\<open>if previous_scanline_data:\<close> is Python's truth test: \<^verbatim>\<open>None\<close> and the empty
  bytes object are both false.
\<close>

definition truthy :: "byte list option \<Rightarrow> bool" where
  "truthy p = (case p of None \<Rightarrow> False | Some xs \<Rightarrow> xs \<noteq> [])"

section \<open>The four reconstruction functions\<close>

text \<open>
  Each function copies the scanline into a bytearray \<^verbatim>\<open>filtered_scanline\<close> and
  overwrites it from left to right; the loop over \<^verbatim>\<open>range(...)\<close> is a fold over the
  indices, the bytearray its state. Reads of \<^verbatim>\<open>filtered_scanline\<close> and
  \<^verbatim>\<open>scanline_data\<close> are at indices of the loop's own range; reads of the previous
  scanline can be past its end and raise.
\<close>

definition apply_sub_filter :: "byte list \<Rightarrow> nat \<Rightarrow> byte list" where
  "apply_sub_filter scanline_data width =
     (let bytes_per_pixel = 3 in
      fold (\<lambda>i filtered_scanline.
              filtered_scanline[i := byte_of_int
                ((uint (scanline_data ! i) + uint (filtered_scanline ! (i - bytes_per_pixel))) AND 0xFF)])
           [bytes_per_pixel..<length scanline_data] scanline_data)"

definition apply_up_filter :: "byte list \<Rightarrow> nat \<Rightarrow> byte list option \<Rightarrow> py_error + byte list" where
  "apply_up_filter scanline_data width previous_scanline_data =
     (case previous_scanline_data of
        None \<Rightarrow> Inr scanline_data
      | Some prev \<Rightarrow>
          fold (\<lambda>i acc. and_then acc (\<lambda>filtered_scanline.
                  and_then (get_byte prev i) (\<lambda>above.
                    Inr (filtered_scanline[i := byte_of_int
                          ((uint (scanline_data ! i) + above) AND 0xFF)]))))
               [0..<length scanline_data] (Inr scanline_data))"

definition apply_average_filter ::
  "byte list \<Rightarrow> nat \<Rightarrow> byte list option \<Rightarrow> nat \<Rightarrow> py_error + byte list" where
  "apply_average_filter scanline_data width previous_scanline_data bytes_per_pixel =
     fold (\<lambda>i acc. and_then acc (\<lambda>filtered_scanline.
             let a = (if i \<ge> bytes_per_pixel
                      then uint (filtered_scanline ! (i - bytes_per_pixel)) else 0)
             in and_then (if truthy previous_scanline_data
                          then get_byte (the previous_scanline_data) i else Inr 0) (\<lambda>b.
                  let avg = (a + b) div 2
                  in Inr (filtered_scanline[i := byte_of_int
                            ((uint (scanline_data ! i) + avg) AND 0xFF)]))))
          [0..<length scanline_data] (Inr scanline_data)"

definition paeth_predictor :: "int \<Rightarrow> int \<Rightarrow> int \<Rightarrow> int" where
  "paeth_predictor a b c =
     (let p = a + b - c;
          pa = \<bar>p - a\<bar>;
          pb = \<bar>p - b\<bar>;
          pc = \<bar>p - c\<bar>
      in if pa \<le> pb \<and> pa \<le> pc then a
         else if pb \<le> pc then b
         else c)"

definition apply_paeth_filter ::
  "byte list \<Rightarrow> nat \<Rightarrow> byte list option \<Rightarrow> nat \<Rightarrow> py_error + byte list" where
  "apply_paeth_filter scanline_data width previous_scanline_data bytes_per_pixel =
     fold (\<lambda>i acc. and_then acc (\<lambda>filtered_scanline.
             let a = (if i \<ge> bytes_per_pixel
                      then uint (filtered_scanline ! (i - bytes_per_pixel)) else 0)
             in and_then (if truthy previous_scanline_data
                          then get_byte (the previous_scanline_data) i else Inr 0) (\<lambda>b.
                and_then (if truthy previous_scanline_data \<and> i \<ge> bytes_per_pixel
                          then get_byte (the previous_scanline_data) (i - bytes_per_pixel)
                          else Inr 0) (\<lambda>c.
                  let paeth = paeth_predictor a b c
                  in Inr (filtered_scanline[i := byte_of_int
                            ((uint (scanline_data ! i) + paeth) AND 0xFF)])))))
          [0..<length scanline_data] (Inr scanline_data)"

section \<open>The scanline defilter engine\<close>

text \<open>
  The body of \<^verbatim>\<open>for row in range(height)\<close>: the state is the pair of
  \<^verbatim>\<open>unfiltered_data\<close> and \<^verbatim>\<open>previous_scanline\<close>. The filter byte is read by index
  (IndexError when the data end before it), the scanline by a slice. The last branch
  prints and changes nothing.
\<close>

definition defilter_row ::
  "nat \<Rightarrow> byte list \<Rightarrow> nat \<Rightarrow> byte list \<times> byte list option
     \<Rightarrow> py_error + byte list \<times> byte list option" where
  "defilter_row width pixel_data row st =
     (let scanline_length = width * 3 + 1;
          bytes_per_pixel = 3;
          unfiltered_data = fst st;
          previous_scanline = snd st
      in and_then (get_byte pixel_data (row * scanline_length)) (\<lambda>filter_type.
           let scanline = py_slice pixel_data (row * scanline_length + 1)
                                              ((row + 1) * scanline_length)
           in if filter_type = 0 then
                Inr (unfiltered_data @ scanline, Some scanline)
              else if filter_type = 1 then
                Inr (unfiltered_data @ apply_sub_filter scanline width, Some scanline)
              else if filter_type = 2 then
                and_then (apply_up_filter scanline width previous_scanline) (\<lambda>r.
                  Inr (unfiltered_data @ r, Some scanline))
              else if filter_type = 3 then
                and_then (apply_average_filter scanline width previous_scanline bytes_per_pixel)
                  (\<lambda>r. Inr (unfiltered_data @ r, Some scanline))
              else if filter_type = 4 then
                and_then (apply_paeth_filter scanline width previous_scanline bytes_per_pixel)
                  (\<lambda>r. Inr (unfiltered_data @ r, Some scanline))
              else Inr (unfiltered_data, previous_scanline)))"

text \<open>
  The two things the loop body reads of row \<open>r\<close>: the integer at the row's start and
  the slice after it (shorter than \<open>width * 3\<close> bytes, or empty, where the data end early).
\<close>

definition filter_type_at :: "nat \<Rightarrow> byte list \<Rightarrow> nat \<Rightarrow> int" where
  "filter_type_at w pd r = uint (pd ! (r * (w * 3 + 1)))"

definition scanline_at :: "nat \<Rightarrow> byte list \<Rightarrow> nat \<Rightarrow> byte list" where
  "scanline_at w pd r = py_slice pd (r * (w * 3 + 1) + 1) ((r + 1) * (w * 3 + 1))"

definition defilter_rows ::
  "nat \<Rightarrow> byte list \<Rightarrow> nat list \<Rightarrow> py_error + byte list \<times> byte list option
     \<Rightarrow> py_error + byte list \<times> byte list option" where
  "defilter_rows width pixel_data rows acc =
     fold (\<lambda>row acc. and_then acc (defilter_row width pixel_data row)) rows acc"

definition apply_filters_to_data :: "nat \<Rightarrow> nat \<Rightarrow> byte list \<Rightarrow> py_error + byte list" where
  "apply_filters_to_data width height pixel_data =
     and_then (defilter_rows width pixel_data [0..<height] (Inr ([], None)))
       (\<lambda>st. Inr (fst st))"

section \<open>The pixel assembler\<close>

text \<open>\<^verbatim>\<open>range(0, n, 3)\<close>.\<close>

definition range_step3 :: "nat \<Rightarrow> nat list" where
  "range_step3 n = map (\<lambda>k. 3 * k) [0..<(n + 2) div 3]"

text \<open>
  \<open>Inr None\<close> is the returned \<^verbatim>\<open>None\<close> of the size check; \<open>Inl\<close> would be an
  IndexError of one of the three reads.
\<close>

definition interpret_rgb_8bit ::
  "nat \<Rightarrow> nat \<Rightarrow> byte list \<Rightarrow> py_error + (int \<times> int \<times> int) list option" where
  "interpret_rgb_8bit width height pixel_data =
     (if length pixel_data \<noteq> width * height * 3 then Inr None
      else and_then
             (fold (\<lambda>i acc. and_then acc (\<lambda>pixels.
                      and_then (get_byte pixel_data i) (\<lambda>r.
                      and_then (get_byte pixel_data (i + 1)) (\<lambda>g.
                      and_then (get_byte pixel_data (i + 2)) (\<lambda>b.
                        Inr (pixels @ [(r, g, b)]))))))
                   (range_step3 (length pixel_data)) (Inr []))
             (\<lambda>pixels. Inr (Some pixels)))"

section \<open>The chunk stream reader and the decode entry point\<close>

text \<open>
  The open file is the list of bytes not yet read: \<^verbatim>\<open>f.read(n)\<close> returns the next
  \<open>n\<close> bytes, or fewer at the end of the file, and moves past them.
\<close>

definition file_read :: "nat \<Rightarrow> byte list \<Rightarrow> byte list \<times> byte list" where
  "file_read n f = (take n f, drop n f)"

text \<open>\<^verbatim>\<open>struct.unpack('>I', bs)[0]\<close>: the bytes as a big-endian unsigned number.\<close>

definition be_uint :: "byte list \<Rightarrow> nat" where
  "be_uint bs = foldl (\<lambda>acc b. acc * 256 + unat b) 0 bs"

text \<open>The bytes of an ASCII string literal.\<close>

definition ascii :: "string \<Rightarrow> byte list" where
  "ascii s = map (\<lambda>c. of_nat (of_char c)) s"

text \<open>\<^verbatim>\<open>chunk_type.decode('ascii')\<close> raises UnicodeDecodeError on a byte above 127.\<close>

definition decode_ascii :: "byte list \<Rightarrow> py_error + byte list" where
  "decode_ascii bs = (if list_all (\<lambda>b. b < 128) bs then Inr bs else Inl UnicodeDecodeError)"

definition png_signature :: "byte list" where
  "png_signature = [0x89, 0x50, 0x4E, 0x47, 0x0D, 0x0A, 0x1A, 0x0A]"

text \<open>
  The seven header variables are \<^verbatim>\<open>None\<close> until one \<^verbatim>\<open>struct.unpack('>IIBBBBB', ...)\<close>
  assigns them all: they are one optional record. \<^verbatim>\<open>struct.unpack\<close> raises
  \<^verbatim>\<open>struct.error\<close> unless the chunk data are exactly 13 bytes.
\<close>

record ihdr =
  ihdr_width :: nat
  ihdr_height :: nat
  ihdr_bit_depth :: nat
  ihdr_color_type :: nat
  ihdr_compression_method :: nat
  ihdr_filter_method :: nat
  ihdr_interlace_method :: nat

definition unpack_ihdr :: "byte list \<Rightarrow> py_error + ihdr" where
  "unpack_ihdr chunk_data =
     (if length chunk_data \<noteq> 13 then Inl StructError
      else Inr \<lparr> ihdr_width = be_uint (take 4 chunk_data),
                 ihdr_height = be_uint (take 4 (drop 4 chunk_data)),
                 ihdr_bit_depth = unat (chunk_data ! 8),
                 ihdr_color_type = unat (chunk_data ! 9),
                 ihdr_compression_method = unat (chunk_data ! 10),
                 ihdr_filter_method = unat (chunk_data ! 11),
                 ihdr_interlace_method = unat (chunk_data ! 12) \<rparr>)"

record png_locals =
  header :: "ihdr option"
  idat :: "byte list"

text \<open>
  The \<^verbatim>\<open>while True\<close> loop of \<^verbatim>\<open>read_png\<close>. \<open>Inr None\<close> is one of the four
  \<^verbatim>\<open>return None\<close> of a short read, \<open>Inl\<close> an exception, \<open>Inr (Some vars)\<close> the
  \<^verbatim>\<open>break\<close> at IEND. The checksum bytes are read and only their number is looked at.
  Every round that goes on has read at least twelve bytes, so the loop ends.
\<close>

function read_chunks :: "png_locals \<Rightarrow> byte list \<Rightarrow> py_error + png_locals option" where
  "read_chunks vars f =
     (if length (take 4 f) \<noteq> 4 then Inr None
      else if length (take 4 (drop 4 f)) \<noteq> 4 then Inr None
      else and_then (decode_ascii (take 4 (drop 4 f))) (\<lambda>chunk_type_str.
        if length (take (be_uint (take 4 f)) (drop 8 f)) \<noteq> be_uint (take 4 f) then Inr None
        else if length (take 4 (drop (8 + be_uint (take 4 f)) f)) \<noteq> 4 then Inr None
        else if chunk_type_str = ascii ''IHDR'' then
          and_then (unpack_ihdr (take (be_uint (take 4 f)) (drop 8 f))) (\<lambda>h.
            read_chunks (vars\<lparr>header := Some h\<rparr>) (drop (12 + be_uint (take 4 f)) f))
        else if chunk_type_str = ascii ''IDAT'' then
          read_chunks (vars\<lparr>idat := idat vars @ take (be_uint (take 4 f)) (drop 8 f)\<rparr>)
                      (drop (12 + be_uint (take 4 f)) f)
        else if chunk_type_str = ascii ''IEND'' then Inr (Some vars)
        else read_chunks vars (drop (12 + be_uint (take 4 f)) f)))"
  by pat_completeness auto
termination
  by (relation "measure (\<lambda>(vars, f). length f)") auto

text \<open>
  The body of the \<^verbatim>\<open>try\<close> block, after the file is open. \<open>decompress\<close> is
  \<^verbatim>\<open>zlib.decompress\<close>, the external collaborator: \<open>None\<close> is its \<^verbatim>\<open>zlib.error\<close>,
  which the inner handler turns into \<^verbatim>\<open>return None\<close>. With no header chunk
  \<^verbatim>\<open>width * 3 + 1\<close> is a TypeError.
\<close>

definition read_png_body ::
  "(byte list \<Rightarrow> byte list option) \<Rightarrow> byte list
     \<Rightarrow> py_error + (nat \<times> nat \<times> nat \<times> nat \<times> byte list) option" where
  "read_png_body decompress f =
     (let (signature, f1) = file_read 8 f
      in if signature \<noteq> png_signature then Inr None
         else and_then (read_chunks \<lparr> header = None, idat = [] \<rparr> f1) (\<lambda>r.
           case r of
             None \<Rightarrow> Inr None
           | Some vars \<Rightarrow>
               (case decompress (idat vars) of
                  None \<Rightarrow> Inr None
                | Some decompressed_data \<Rightarrow>
                    (case header vars of
                       None \<Rightarrow> Inl TypeError
                     | Some h \<Rightarrow>
                         and_then (apply_filters_to_data (ihdr_width h) (ihdr_height h)
                                     decompressed_data) (\<lambda>unfiltered_data.
                           Inr (Some (ihdr_width h, ihdr_height h, ihdr_color_type h,
                                      ihdr_bit_depth h, unfiltered_data)))))))"

text \<open>
  \<^verbatim>\<open>read_png(filename)\<close>: the file is \<open>None\<close> when it does not exist
  (FileNotFoundError); that handler and the handler of every other exception both
  print and return \<^verbatim>\<open>None\<close>.
\<close>

definition read_png ::
  "(byte list \<Rightarrow> byte list option) \<Rightarrow> byte list option
     \<Rightarrow> (nat \<times> nat \<times> nat \<times> nat \<times> byte list) option" where
  "read_png decompress file =
     (case file of
        None \<Rightarrow> None
      | Some f \<Rightarrow> (case read_png_body decompress f of Inl e \<Rightarrow> None | Inr r \<Rightarrow> r))"



section \<open>A decompressor for concrete files\<close>

text \<open>
  The theorems about \<open>read_png\<close> hold for every \<open>decompress\<close>. To run \<open>read_png\<close>
  on a concrete file a concrete decompressor is needed; this one reads the zlib streams
  that consist of one final stored (uncompressed) deflate block: the two header bytes
  (method 8, window at most 32K, no preset dictionary, check bits), the block header
  (final, type 00), the length and its complement in little-endian order, the bytes
  themselves and their Adler-32 checksum. On those streams it returns the stored bytes,
  as \<^verbatim>\<open>zlib.decompress\<close> does; it is applied to no other stream.
\<close>

definition adler32 :: "byte list \<Rightarrow> nat" where
  "adler32 bs =
     (let sums = fold (\<lambda>x (a, b). ((a + unat x) mod 65521, (b + (a + unat x) mod 65521) mod 65521))
                      bs (1, 0)
      in snd sums * 65536 + fst sums)"

definition zlib_decompress_stored :: "byte list \<Rightarrow> byte list option" where
  "zlib_decompress_stored z =
     (if length z < 11 then None
      else let cmf = unat (z ! 0);
               flg = unat (z ! 1);
               block = unat (z ! 2);
               len = unat (z ! 3) + 256 * unat (z ! 4);
               nlen = unat (z ! 5) + 256 * unat (z ! 6);
               stored = take len (drop 7 z);
               trailer = drop (7 + len) z
           in if cmf mod 16 = 8 \<and> cmf div 16 \<le> 7 \<and> (cmf * 256 + flg) mod 31 = 0
                 \<and> (flg div 32) mod 2 = 0 \<and> block mod 8 = 1 \<and> len + nlen = 65535
                 \<and> length trailer = 4 \<and> be_uint trailer = adler32 stored
              then Some stored else None)"

section \<open>Definitions that follow the specification's words\<close>

text \<open>
  Modelled from the spec: the reference forward filter of the round-trip property,
  which the repository does not contain. It is the inverse of section 4.5's
  reconstruction rules: the stored byte is the true byte minus the prediction, modulo
  256, where \<open>a\<close> is the true byte \<open>bytesPerPixel\<close> positions to the left, \<open>b\<close> the
  true byte above and \<open>c\<close> the true byte above and to the left, each 0 outside the image.
\<close>

definition prediction :: "nat \<Rightarrow> int \<Rightarrow> int \<Rightarrow> int \<Rightarrow> int" where
  "prediction filter_type a b c =
     (if filter_type = 0 then 0
      else if filter_type = 1 then a
      else if filter_type = 2 then b
      else if filter_type = 3 then (a + b) div 2
      else paeth_predictor a b c)"

definition forward_filter_row :: "nat \<Rightarrow> nat \<Rightarrow> byte list \<Rightarrow> byte list \<Rightarrow> byte list" where
  "forward_filter_row filter_type bpp prev_row cur =
     map (\<lambda>i. let a = (if i \<ge> bpp then uint (cur ! (i - bpp)) else 0);
                   b = (if i < length prev_row then uint (prev_row ! i) else 0);
                   c = (if i \<ge> bpp \<and> i - bpp < length prev_row then uint (prev_row ! (i - bpp)) else 0)
               in byte_of_int ((uint (cur ! i) - prediction filter_type a b c) mod 256))
         [0..<length cur]"

definition image_row :: "nat \<Rightarrow> byte list \<Rightarrow> nat \<Rightarrow> byte list" where
  "image_row w img r = take (w * 3) (drop (r * (w * 3)) img)"

definition forward_filter :: "nat \<Rightarrow> nat \<Rightarrow> nat \<Rightarrow> byte list \<Rightarrow> byte list" where
  "forward_filter filter_type w h img =
     concat (map (\<lambda>r. of_nat filter_type #
                       forward_filter_row filter_type 3
                         (if r = 0 then [] else image_row w img (r - 1)) (image_row w img r))
                 [0..<h])"

text \<open>
  The Paeth selection as the specification words it: the candidates are \<open>a\<close>, \<open>b\<close>
  and \<open>a + b - c\<close>, the one closest to the predictor \<open>a + b - c\<close> is taken, \<open>a\<close>
  before \<open>b\<close> before the third.
\<close>

definition paeth_as_worded :: "int \<Rightarrow> int \<Rightarrow> int \<Rightarrow> int" where
  "paeth_as_worded a b c =
     (let p = a + b - c;
          da = \<bar>p - a\<bar>;
          db = \<bar>p - b\<bar>;
          dp = \<bar>p - p\<bar>
      in if da \<le> db \<and> da \<le> dp then a
         else if db \<le> dp then b
         else p)"




text \<open>
  Two chunk sequences that are identical except for the 4-byte checksum fields of
  chunks: they are equal, or both start with a complete chunk (length, type, payload,
  four checksum bytes) that agrees in all but the checksum, and what follows the chunk
  is related in the same way.
\<close>

function same_but_crc :: "byte list \<Rightarrow> byte list \<Rightarrow> bool" where
  "same_but_crc s t =
     (if s = t then True
      else if length s < be_uint (take 4 s) + 12 then False
      else if length t < be_uint (take 4 s) + 12 then False
      else take (be_uint (take 4 s) + 8) s = take (be_uint (take 4 s) + 8) t
           \<and> same_but_crc (drop (be_uint (take 4 s) + 12) s) (drop (be_uint (take 4 s) + 12) t))"
  by pat_completeness auto
termination
  by (relation "measure (\<lambda>(s, t). length s)") auto

section \<open>Facts about the reconstruction functions\<close>

lemma and_then_Inl [simp]: "and_then (Inl e) k = Inl e"
  by (simp add: and_then_def)

lemma and_then_Inr [simp]: "and_then (Inr x) k = k x"
  by (simp add: and_then_def)

lemma int_and_255: "(x::int) AND 255 = x mod 256"
proof -
  have "x AND mask 8 = x mod 2 ^ 8"
    by (simp only: take_bit_eq_mask [symmetric] take_bit_eq_mod)
  then show ?thesis by (simp add: mask_eq_exp_minus_1)
qed

lemma fold_and_then_Inl: "fold (\<lambda>i acc. and_then acc (f i)) xs (Inl e) = Inl e"
  by (induction xs) simp_all

lemma fold_steps_ok:
  assumes "\<And>i s. i \<in> set xs \<Longrightarrow> P s \<Longrightarrow> \<exists>s'. f i s = Inr s' \<and> P s'"
    and "P s0"
  shows "\<exists>s'. fold (\<lambda>i acc. and_then acc (f i)) xs (Inr s0) = Inr s' \<and> P s'"
  using assms
proof (induction xs arbitrary: s0)
  case Nil
  then show ?case by simp
next
  case (Cons x xs)
  from Cons.prems obtain s1 where s1: "f x s0 = Inr s1" "P s1"
    by (meson list.set_intros(1))
  have "\<exists>s'. fold (\<lambda>i acc. and_then acc (f i)) xs (Inr s1) = Inr s' \<and> P s'"
    by (rule Cons.IH) (use Cons.prems s1 in auto)
  with s1 show ?case by simp
qed

lemma length_apply_sub_filter: "length (apply_sub_filter scan w) = length scan"
proof -
  have "length (fold (\<lambda>i fs. fs[i := g i fs]) xs ys) = length ys" for g :: "nat \<Rightarrow> byte list \<Rightarrow> byte" and xs ys
    by (induction xs arbitrary: ys) simp_all
  then show ?thesis by (simp add: apply_sub_filter_def)
qed

lemma apply_up_filter_ok:
  assumes "prev = None \<or> length scan \<le> length (the prev)"
  shows "\<exists>r. apply_up_filter scan w prev = Inr r \<and> length r = length scan"
proof (cases prev)
  case None
  then show ?thesis by (simp add: apply_up_filter_def)
next
  case (Some p)
  with assms have le: "length scan \<le> length p" by simp
  have "\<exists>s'. fold (\<lambda>i acc. and_then acc (\<lambda>fs. and_then (get_byte p i) (\<lambda>above.
            Inr (fs[i := byte_of_int ((uint (scan ! i) + above) AND 0xFF)]))))
          [0..<length scan] (Inr scan) = Inr s' \<and> length s' = length scan"
    by (rule fold_steps_ok) (use le in \<open>auto simp: get_byte_def\<close>)
  with Some show ?thesis by (simp add: apply_up_filter_def)
qed

lemma prev_byte_ok:
  assumes "prev = None \<or> length scan \<le> length (the prev)" and "i < length scan"
  shows "\<exists>b. (if truthy prev then get_byte (the prev) i else Inr 0) = Inr b"
  using assms by (cases prev) (auto simp: truthy_def get_byte_def)

lemma prev_left_byte_ok:
  assumes "prev = None \<or> length scan \<le> length (the prev)" and "i < length scan"
  shows "\<exists>c. (if truthy prev \<and> i \<ge> bpp then get_byte (the prev) (i - bpp) else Inr 0) = Inr c"
  using assms by (cases prev) (auto simp: truthy_def get_byte_def)

lemma apply_average_filter_ok:
  assumes "prev = None \<or> length scan \<le> length (the prev)"
  shows "\<exists>r. apply_average_filter scan w prev bpp = Inr r \<and> length r = length scan"
  unfolding apply_average_filter_def
proof (rule fold_steps_ok)
  fix i and s :: "byte list"
  assume "i \<in> set [0..<length scan]" and len: "length s = length scan"
  then have "i < length scan" by simp
  from prev_byte_ok [OF assms this] obtain b
    where "(if truthy prev then get_byte (the prev) i else Inr 0) = Inr b" ..
  then show "\<exists>s'. (let a = if bpp \<le> i then uint (s ! (i - bpp)) else 0
            in and_then (if truthy prev then get_byte (the prev) i else Inr 0)
                (\<lambda>b. let avg = (a + b) div 2
                     in Inr (s[i := byte_of_int ((uint (scan ! i) + avg) AND 0xFF)]))) = Inr s'
          \<and> length s' = length scan"
    using len by (simp add: Let_def)
qed simp

lemma apply_paeth_filter_ok:
  assumes "prev = None \<or> length scan \<le> length (the prev)"
  shows "\<exists>r. apply_paeth_filter scan w prev bpp = Inr r \<and> length r = length scan"
  unfolding apply_paeth_filter_def
proof (rule fold_steps_ok)
  fix i and s :: "byte list"
  assume "i \<in> set [0..<length scan]" and len: "length s = length scan"
  then have i: "i < length scan" by simp
  from prev_byte_ok [OF assms i] obtain b
    where b: "(if truthy prev then get_byte (the prev) i else Inr 0) = Inr b" ..
  from prev_left_byte_ok [OF assms i] obtain c
    where c: "(if truthy prev \<and> i \<ge> bpp then get_byte (the prev) (i - bpp) else Inr 0) = Inr c" ..
  show "\<exists>s'. (let a = if bpp \<le> i then uint (s ! (i - bpp)) else 0
            in and_then (if truthy prev then get_byte (the prev) i else Inr 0)
                (\<lambda>b. and_then (if truthy prev \<and> bpp \<le> i then get_byte (the prev) (i - bpp) else Inr 0)
                  (\<lambda>c. let paeth = paeth_predictor a b c
                     in Inr (s[i := byte_of_int ((uint (scan ! i) + paeth) AND 0xFF)])))) = Inr s'
          \<and> length s' = length scan"
    using len b c by (simp add: Let_def)
qed simp

section \<open>Facts about the defilter loop\<close>

text \<open>
  A later scanline is never longer than an earlier one, so once a previous scanline is
  kept, every read of it by a later row is in range: the reconstruction functions do not
  raise inside the loop, and the only exception of the engine is the IndexError of a
  missing filter byte.
\<close>

lemma filter_type_at_nonneg: "0 \<le> filter_type_at w pd r"
  by (simp add: filter_type_at_def)

lemma length_scanline_at:
  "length (scanline_at w pd r) = min ((r + 1) * (w * 3 + 1)) (length pd) - (r * (w * 3 + 1) + 1)"
  by (simp add: scanline_at_def py_slice_def)

lemma length_scanline_at_full:
  assumes "h * (w * 3 + 1) \<le> length pd" and "r < h"
  shows "length (scanline_at w pd r) = w * 3"
proof -
  from \<open>r < h\<close> have "(r + 1) * (w * 3 + 1) \<le> h * (w * 3 + 1)"
    by (intro mult_le_mono1) simp
  with assms(1) have "min ((r + 1) * (w * 3 + 1)) (length pd) = (r + 1) * (w * 3 + 1)"
    by simp
  then show ?thesis by (simp add: length_scanline_at)
qed

lemma length_scanline_at_mono:
  assumes "r \<le> r'"
  shows "length (scanline_at w pd r') \<le> length (scanline_at w pd r)"
proof -
  let ?sl = "w * 3 + 1"
  from assms have le: "r * ?sl \<le> r' * ?sl" by (intro mult_le_mono1)
  show ?thesis
  proof (cases "(r' + 1) * ?sl \<le> length pd")
    case True
    moreover from assms have "(r + 1) * ?sl \<le> (r' + 1) * ?sl" by (intro mult_le_mono1) simp
    ultimately show ?thesis by (simp add: length_scanline_at)
  next
    case False
    then have "length pd - (r' * ?sl + 1) \<le> w * 3" by simp
    moreover from le have "length pd - (r' * ?sl + 1) \<le> length pd - (r * ?sl + 1)" by simp
    ultimately show ?thesis using False by (simp add: length_scanline_at min_def)
  qed
qed

lemma defilter_row_step:
  assumes idx: "r * (w * 3 + 1) < length pd"
    and prev: "snd st = None \<or> length (scanline_at w pd r) \<le> length (the (snd st))"
  shows "\<exists>out. defilter_row w pd r st =
           Inr (fst st @ out, if filter_type_at w pd r \<le> 4 then Some (scanline_at w pd r) else snd st)
         \<and> length out = (if filter_type_at w pd r \<le> 4 then length (scanline_at w pd r) else 0)"
proof -
  let ?scan = "scanline_at w pd r"
  let ?ft = "filter_type_at w pd r"
  have ft: "get_byte pd (r * (w * 3 + 1)) = Inr ?ft"
    using idx by (simp add: get_byte_def filter_type_at_def)
  from apply_up_filter_ok [OF prev] obtain up
    where up: "apply_up_filter ?scan w (snd st) = Inr up" "length up = length ?scan" by blast
  from apply_average_filter_ok [OF prev] obtain av
    where av: "apply_average_filter ?scan w (snd st) 3 = Inr av" "length av = length ?scan" by blast
  from apply_paeth_filter_ok [OF prev] obtain pa
    where pa: "apply_paeth_filter ?scan w (snd st) 3 = Inr pa" "length pa = length ?scan" by blast
  have cases: "?ft = 0 \<or> ?ft = 1 \<or> ?ft = 2 \<or> ?ft = 3 \<or> ?ft = 4 \<or> 4 < ?ft"
    using filter_type_at_nonneg [of w pd r] by arith
  have unfold: "defilter_row w pd r st =
      (if ?ft = 0 then Inr (fst st @ ?scan, Some ?scan)
       else if ?ft = 1 then Inr (fst st @ apply_sub_filter ?scan w, Some ?scan)
       else if ?ft = 2 then Inr (fst st @ up, Some ?scan)
       else if ?ft = 3 then Inr (fst st @ av, Some ?scan)
       else if ?ft = 4 then Inr (fst st @ pa, Some ?scan)
       else Inr (fst st, snd st))"
    by (simp only: defilter_row_def Let_def ft scanline_at_def [symmetric] and_then_Inr up av pa)
  from cases show ?thesis
    by (elim disjE) (simp_all add: unfold up av pa length_apply_sub_filter)
qed

lemma defilter_rows_Inl: "defilter_rows w pd rows (Inl e) = Inl e"
  by (simp add: defilter_rows_def fold_and_then_Inl)

lemma defilter_rows_append:
  "defilter_rows w pd (xs @ ys) acc = defilter_rows w pd ys (defilter_rows w pd xs acc)"
  by (simp add: defilter_rows_def)

lemma defilter_rows_Cons:
  "defilter_rows w pd (r # rs) acc = defilter_rows w pd rs (and_then acc (defilter_row w pd r))"
  by (simp add: defilter_rows_def)

lemma defilter_rows_single:
  "defilter_rows w pd [r] acc = and_then acc (defilter_row w pd r)"
  by (simp add: defilter_rows_def)

lemma defilter_row_missing:
  assumes "length pd \<le> r * (w * 3 + 1)"
  shows "defilter_row w pd r st = Inl IndexError"
  using assms by (simp add: defilter_row_def get_byte_def Let_def)

lemma defilter_rows_prefix:
  assumes "\<forall>r<k. r * (w * 3 + 1) < length pd"
  shows "\<exists>out prev. defilter_rows w pd [0..<k] (Inr ([], None)) = Inr (out, prev)
     \<and> (prev = None \<or> (\<exists>r<k. prev = Some (scanline_at w pd r)))
     \<and> length out = sum_list (map (\<lambda>r. if filter_type_at w pd r \<le> 4
                                          then length (scanline_at w pd r) else 0) [0..<k])"
  using assms
proof (induction k)
  case 0
  then show ?case by (simp add: defilter_rows_def)
next
  case (Suc k)
  then obtain out prev where
    run: "defilter_rows w pd [0..<k] (Inr ([], None)) = Inr (out, prev)"
    and prev: "prev = None \<or> (\<exists>r<k. prev = Some (scanline_at w pd r))"
    and len: "length out = sum_list (map (\<lambda>r. if filter_type_at w pd r \<le> 4
                                          then length (scanline_at w pd r) else 0) [0..<k])"
    by auto
  from Suc.prems have idx: "k * (w * 3 + 1) < length pd" by simp
  from prev have "snd (out, prev) = None
      \<or> length (scanline_at w pd k) \<le> length (the (snd (out, prev)))"
    using length_scanline_at_mono [of _ k w pd] by (auto dest: less_imp_le)
  from defilter_row_step [OF idx this] obtain row_out where
    step: "defilter_row w pd k (out, prev) =
             Inr (out @ row_out, if filter_type_at w pd k \<le> 4
                                 then Some (scanline_at w pd k) else prev)"
    and row_len: "length row_out =
             (if filter_type_at w pd k \<le> 4 then length (scanline_at w pd k) else 0)"
    by auto
  have "defilter_rows w pd [0..<Suc k] (Inr ([], None)) =
          Inr (out @ row_out, if filter_type_at w pd k \<le> 4
                              then Some (scanline_at w pd k) else prev)"
    by (simp add: defilter_rows_append defilter_rows_single run step)
  moreover have "(if filter_type_at w pd k \<le> 4 then Some (scanline_at w pd k) else prev) = None
      \<or> (\<exists>r<Suc k. (if filter_type_at w pd k \<le> 4 then Some (scanline_at w pd k) else prev)
               = Some (scanline_at w pd r))"
    using prev by (auto intro: less_SucI)
  moreover have "length (out @ row_out) =
      sum_list (map (\<lambda>r. if filter_type_at w pd r \<le> 4
                          then length (scanline_at w pd r) else 0) [0..<Suc k])"
    by (simp add: len row_len)
  ultimately show ?case by blast
qed

lemma apply_filters_returns:
  assumes "h = 0 \<or> (h - 1) * (w * 3 + 1) < length pd"
  shows "\<exists>out. apply_filters_to_data w h pd = Inr out
     \<and> length out = sum_list (map (\<lambda>r. if filter_type_at w pd r \<le> 4
                                          then length (scanline_at w pd r) else 0) [0..<h])"
proof -
  have "\<forall>r<h. r * (w * 3 + 1) < length pd"
  proof (intro allI impI)
    fix r assume "r < h"
    then have "r \<le> h - 1" and "h \<noteq> 0" by simp_all
    then have "r * (w * 3 + 1) \<le> (h - 1) * (w * 3 + 1)" by (intro mult_le_mono1)
    with assms \<open>h \<noteq> 0\<close> show "r * (w * 3 + 1) < length pd" by simp
  qed
  from defilter_rows_prefix [OF this] show ?thesis
    by (auto simp: apply_filters_to_data_def)
qed

lemma apply_filters_raises:
  assumes "0 < h" and "length pd \<le> (h - 1) * (w * 3 + 1)"
  shows "apply_filters_to_data w h pd = Inl IndexError"
proof -
  define k where "k = (LEAST r. length pd \<le> r * (w * 3 + 1))"
  have short: "length pd \<le> k * (w * 3 + 1)"
    unfolding k_def using assms(2) by (rule LeastI)
  have "k \<le> h - 1"
    unfolding k_def using assms(2) by (rule Least_le)
  with assms(1) have "k < h" by simp
  have before: "\<forall>r<k. r * (w * 3 + 1) < length pd"
    unfolding k_def using not_less_Least by (auto simp: not_le [symmetric])
  from defilter_rows_prefix [OF before] obtain out prev where
    run: "defilter_rows w pd [0..<k] (Inr ([], None)) = Inr (out, prev)" by blast
  from \<open>k < h\<close> have split: "[0..<h] = [0..<k] @ [k] @ [Suc k..<h]"
  proof -
    from \<open>k < h\<close> have "[0..<h] = [0..<k] @ [k..<h]"
      using upt_add_eq_append [of 0 k "h - k"] by simp
    with \<open>k < h\<close> show ?thesis by (simp add: upt_conv_Cons)
  qed
  show ?thesis
    by (simp add: apply_filters_to_data_def split defilter_rows_append defilter_rows_Cons
        run defilter_row_missing [OF short] defilter_rows_Inl)
qed

lemma sum_list_if_const:
  "sum_list (map (\<lambda>r. if P r then c else (0::nat)) xs) = c * length (filter P xs)"
  by (induction xs) simp_all

lemma apply_filters_full_length:
  assumes "h * (w * 3 + 1) \<le> length pd"
  shows "\<exists>out. apply_filters_to_data w h pd = Inr out
     \<and> length out = w * 3 * length (filter (\<lambda>r. filter_type_at w pd r \<le> 4) [0..<h])"
proof -
  have "h = 0 \<or> (h - 1) * (w * 3 + 1) < length pd"
  proof (cases h)
    case (Suc n)
    with assms show ?thesis by simp
  qed simp
  from apply_filters_returns [OF this] obtain out where
    out: "apply_filters_to_data w h pd = Inr out"
    and len: "length out = sum_list (map (\<lambda>r. if filter_type_at w pd r \<le> 4
                                          then length (scanline_at w pd r) else 0) [0..<h])"
    by blast
  have "map (\<lambda>r. if filter_type_at w pd r \<le> 4 then length (scanline_at w pd r) else 0) [0..<h]
      = map (\<lambda>r. if filter_type_at w pd r \<le> 4 then w * 3 else 0) [0..<h]"
    by (rule map_cong) (simp_all add: length_scanline_at_full [OF assms])
  with len have "length out = w * 3 * length (filter (\<lambda>r. filter_type_at w pd r \<le> 4) [0..<h])"
    by (simp add: sum_list_if_const)
  with out show ?thesis by blast
qed

text \<open>The definitions a concrete run of the engine unfolds.\<close>

lemmas defilter_eval = apply_filters_to_data_def defilter_rows_def defilter_row_def and_then_def
  get_byte_def py_slice_def upt_rec Let_def apply_sub_filter_def apply_up_filter_def
  apply_average_filter_def apply_paeth_filter_def paeth_predictor_def truthy_def byte_of_int_def


section \<open>C3: the two-pixel row\<close>

text \<open>
  C3. For width 2 and height 1 the payload \<open>[0, 255,0,0, 0,255,0]\<close> defilters to
  \<open>[255,0,0,0,255,0]\<close>, and those bytes assemble to the pixels (255,0,0), (0,255,0).
\<close>

theorem two_pixel_row_decodes:
  "apply_filters_to_data 2 1 [0, 255, 0, 0, 0, 255, 0] = Inr [255, 0, 0, 0, 255, 0]
   \<and> interpret_rgb_8bit 2 1 [255, 0, 0, 0, 255, 0] = Inr (Some [(255, 0, 0), (0, 255, 0)])"
  by (simp add: defilter_eval interpret_rgb_8bit_def range_step3_def)

section \<open>C1: the previous-row reference\<close>

text \<open>
  C1. The claim is that row \<open>r + 1\<close> is reconstructed against the reconstructed row
  \<open>r\<close>. The loop keeps the slice it cut from the input instead (the state that
  \<open>defilter_row_step\<close> gives). Here row 0 is a Sub row that reconstructs to
  \<open>[1,1,1,2,2,2]\<close> and row 1 an Up row of zeros, which must repeat the row above; the
  engine returns the raw bytes \<open>[1,1,1,1,1,1]\<close> of row 0 for it, where the Up rule
  on the reconstructed row 0 gives \<open>[1,1,1,2,2,2]\<close>.
\<close>

theorem previous_row_is_raw_scanline:
  "apply_filters_to_data 2 2 [1, 1, 1, 1, 1, 1, 1, 2, 0, 0, 0, 0, 0, 0]
     = Inr ([1, 1, 1, 2, 2, 2] @ [1, 1, 1, 1, 1, 1])
   \<and> apply_up_filter [0, 0, 0, 0, 0, 0] 2 (Some [1, 1, 1, 2, 2, 2]) = Inr [1, 1, 1, 2, 2, 2]"
  by (simp add: defilter_eval)

section \<open>C2: the round trip\<close>

text \<open>
  C2. The claim is that defiltering undoes the forward filter. With the Up filter on
  every row of the 1 by 3 image \<open>[1,1,1, 0,0,0, 0,0,0]\<close> the third row comes back as
  \<open>[255,255,255]\<close>: it is added to the raw second row, not to the reconstructed one.
\<close>

theorem round_trip_up_three_rows:
  "forward_filter 2 1 3 [1, 1, 1, 0, 0, 0, 0, 0, 0] = [2, 1, 1, 1, 2, 255, 255, 255, 2, 0, 0, 0]
   \<and> apply_filters_to_data 1 3 (forward_filter 2 1 3 [1, 1, 1, 0, 0, 0, 0, 0, 0])
       = Inr [1, 1, 1, 0, 0, 0, 255, 255, 255]"
proof -
  have f: "forward_filter 2 1 3 [1, 1, 1, 0, 0, 0, 0, 0, 0]
             = [2, 1, 1, 1, 2, 255, 255, 255, 2, 0, 0, 0]"
    by (simp add: forward_filter_def forward_filter_row_def image_row_def prediction_def
        upt_rec Let_def byte_of_int_def)
  have "apply_filters_to_data 1 3 [2, 1, 1, 1, 2, 255, 255, 255, 2, 0, 0, 0]
          = Inr [1, 1, 1, 0, 0, 0, 255, 255, 255]"
    by (simp add: defilter_eval)
  with f show ?thesis by simp
qed

section \<open>C6: the length of the output, and inputs that are too short\<close>

lemma filter_all_valid:
  assumes "\<forall>r<h. filter_type_at w pd r \<le> 4"
  shows "filter (\<lambda>r. filter_type_at w pd r \<le> 4) [0..<h] = [0..<h]"
  using assms by (simp add: filter_id_conv)

text \<open>
  C6, as amended. The engine assumes three bytes per pixel. On an input of at least
  \<open>height * (1 + width * 3)\<close> bytes whose filter bytes are all in 0..4 it returns exactly
  \<open>height * width * 3\<close> bytes. It has no length check and no TruncatedScanlines error:
  an input that ends at or before the filter byte of the last row raises IndexError,
  and every other input returns an output. When the input ends inside the last row's
  data and its filter bytes are all in 0..4, that output has \<open>length - height\<close> bytes.
\<close>

theorem defilter_output_length:
  "(h * (w * 3 + 1) \<le> length pd \<and> (\<forall>r<h. filter_type_at w pd r \<le> 4)
      \<longrightarrow> (\<exists>out. apply_filters_to_data w h pd = Inr out \<and> length out = h * w * 3))
   \<and> (0 < h \<and> length pd \<le> (h - 1) * (w * 3 + 1)
      \<longrightarrow> apply_filters_to_data w h pd = Inl IndexError)
   \<and> (h = 0 \<or> (h - 1) * (w * 3 + 1) < length pd
      \<longrightarrow> (\<exists>out. apply_filters_to_data w h pd = Inr out))
   \<and> (0 < h \<and> (h - 1) * (w * 3 + 1) < length pd \<and> length pd < h * (w * 3 + 1)
        \<and> (\<forall>r<h. filter_type_at w pd r \<le> 4)
      \<longrightarrow> (\<exists>out. apply_filters_to_data w h pd = Inr out \<and> length out = length pd - h))"
proof (intro conjI impI)
  assume a: "h * (w * 3 + 1) \<le> length pd \<and> (\<forall>r<h. filter_type_at w pd r \<le> 4)"
  then have "filter (\<lambda>r. filter_type_at w pd r \<le> 4) [0..<h] = [0..<h]"
    by (intro filter_all_valid) simp
  with apply_filters_full_length [of h w pd] a
  show "\<exists>out. apply_filters_to_data w h pd = Inr out \<and> length out = h * w * 3"
    by (auto simp: mult_ac)
next
  assume "0 < h \<and> length pd \<le> (h - 1) * (w * 3 + 1)"
  then show "apply_filters_to_data w h pd = Inl IndexError"
    using apply_filters_raises [of h pd w] by blast
next
  assume "h = 0 \<or> (h - 1) * (w * 3 + 1) < length pd"
  then show "\<exists>out. apply_filters_to_data w h pd = Inr out"
    using apply_filters_returns [of h w pd] by blast
next
  assume a: "0 < h \<and> (h - 1) * (w * 3 + 1) < length pd \<and> length pd < h * (w * 3 + 1)
        \<and> (\<forall>r<h. filter_type_at w pd r \<le> 4)"
  then obtain n where h: "h = Suc n" by (cases h) auto
  from a h have lo: "n * (w * 3 + 1) < length pd" and hi: "length pd < Suc n * (w * 3 + 1)"
    and valid: "\<forall>r<Suc n. filter_type_at w pd r \<le> 4" by simp_all
  from apply_filters_returns [of h w pd] a obtain out where
    out: "apply_filters_to_data w h pd = Inr out"
    and len: "length out = sum_list (map (\<lambda>r. if filter_type_at w pd r \<le> 4
                                          then length (scanline_at w pd r) else 0) [0..<h])"
    by auto
  have full: "length (scanline_at w pd r) = w * 3" if "r < n" for r
    by (rule length_scanline_at_full [of n]) (use lo that in simp_all)
  have rows: "map (\<lambda>r. if filter_type_at w pd r \<le> 4 then length (scanline_at w pd r) else 0) [0..<n]
      = map (\<lambda>r. w * 3) [0..<n]"
    by (rule map_cong) (use valid full in simp_all)
  have "sum_list (map (\<lambda>r. w * 3) [0..<n]) = n * (w * 3)"
    by (simp add: sum_list_triv)
  then have first: "sum_list (map (\<lambda>r. if filter_type_at w pd r \<le> 4
                         then length (scanline_at w pd r) else 0) [0..<n]) = n * (w * 3)"
    by (simp only: rows)
  have last: "length (scanline_at w pd n) = length pd - (n * (w * 3 + 1) + 1)"
    using hi by (simp add: length_scanline_at min_def)
  have "length out = n * (w * 3) + (length pd - (n * (w * 3 + 1) + 1))"
    using len valid by (simp add: h first last)
  also have "\<dots> = length pd - h"
    using lo by (simp add: h algebra_simps)
  finally show "\<exists>out. apply_filters_to_data w h pd = Inr out \<and> length out = length pd - h"
    using out by blast
qed

text \<open>
  The four cases at \<open>width = 1\<close>: a full row, a missing second row, a cut row with
  filter byte 7, a cut row with filter byte 0.
\<close>

theorem defilter_output_length_witness:
  "(\<exists>out. apply_filters_to_data 1 1 [0, 1, 2, 3] = Inr out \<and> length out = 1 * 1 * 3)
   \<and> apply_filters_to_data 1 2 [0, 1, 2, 3] = Inl IndexError
   \<and> (\<exists>out. apply_filters_to_data 1 1 [7, 1, 2] = Inr out)
   \<and> (\<exists>out. apply_filters_to_data 1 1 [0, 1, 2] = Inr out \<and> length out = length [0, 1, 2 :: byte] - 1)"
  using defilter_output_length [of 1 1 "[0, 1, 2, 3]"]
    defilter_output_length [of 2 1 "[0, 1, 2, 3]"]
    defilter_output_length [of 1 1 "[7, 1, 2]"]
    defilter_output_length [of 1 1 "[0, 1, 2]"]
  by (simp add: filter_type_at_def)

text \<open>
  C6 as stated fails: three bytes are fewer than the four of a 1 by 1 image, and the
  engine returns the two data bytes instead of failing.
\<close>

theorem defilter_short_input_counterexample:
  "length [0, 1, 2 :: byte] < 1 * (1 + 1 * 3) \<and> apply_filters_to_data 1 1 [0, 1, 2] = Inr [1, 2]"
  by (simp add: defilter_eval)

section \<open>C5: a filter byte outside 0..4\<close>

text \<open>
  C5, as amended. A row whose filter byte is outside 0..4 is not an error: the loop body
  leaves both the output and the previous scanline as they were and the loop goes on.
  On an input of at least \<open>height * (1 + width * 3)\<close> bytes the engine always returns,
  with \<open>width * 3\<close> bytes for each row whose filter byte is in 0..4.
\<close>

theorem unknown_filter_row_skipped:
  "(r * (w * 3 + 1) < length pd \<and> 4 < filter_type_at w pd r
      \<longrightarrow> defilter_row w pd r st = Inr st)
   \<and> (h * (w * 3 + 1) \<le> length pd
      \<longrightarrow> (\<exists>out. apply_filters_to_data w h pd = Inr out
             \<and> length out = w * 3 * length (filter (\<lambda>r. filter_type_at w pd r \<le> 4) [0..<h])))"
proof (intro conjI impI)
  assume "r * (w * 3 + 1) < length pd \<and> 4 < filter_type_at w pd r"
  then show "defilter_row w pd r st = Inr st"
    by (simp add: defilter_row_def get_byte_def filter_type_at_def Let_def)
next
  assume "h * (w * 3 + 1) \<le> length pd"
  then show "\<exists>out. apply_filters_to_data w h pd = Inr out
             \<and> length out = w * 3 * length (filter (\<lambda>r. filter_type_at w pd r \<le> 4) [0..<h])"
    by (rule apply_filters_full_length)
qed

text \<open>Two rows of one pixel, the first with filter byte 7.\<close>

theorem unknown_filter_row_skipped_witness:
  "defilter_row 1 [7, 9, 9, 9, 0, 1, 2, 3] 0 ([], None) = Inr ([], None)
   \<and> (\<exists>out. apply_filters_to_data 1 2 [7, 9, 9, 9, 0, 1, 2, 3] = Inr out \<and> length out = 3)"
  using unknown_filter_row_skipped [of 0 1 "[7, 9, 9, 9, 0, 1, 2, 3]" "([], None)" 2]
  by (simp add: filter_type_at_def upt_rec)

text \<open>
  C5 as stated fails: the first row's filter byte is 7 and the engine returns the
  second row alone.
\<close>

theorem unknown_filter_counterexample:
  "filter_type_at 1 [7, 9, 9, 9, 0, 1, 2, 3] 0 = 7
   \<and> apply_filters_to_data 1 2 [7, 9, 9, 9, 0, 1, 2, 3] = Inr [1, 2, 3]"
  by (simp add: defilter_eval filter_type_at_def)

section \<open>C10: the pixel assembler\<close>

lemma rgb_fold:
  assumes "3 * m \<le> length d"
  shows "fold (\<lambda>i acc. and_then acc (\<lambda>pixels.
                      and_then (get_byte d i) (\<lambda>r.
                      and_then (get_byte d (i + 1)) (\<lambda>g.
                      and_then (get_byte d (i + 2)) (\<lambda>b.
                        Inr (pixels @ [(r, g, b)]))))))
              (map (\<lambda>k. 3 * k) [0..<m]) (Inr [])
         = Inr (map (\<lambda>k. (uint (d ! (3 * k)), uint (d ! (3 * k + 1)), uint (d ! (3 * k + 2)))) [0..<m])"
  using assms
proof (induction m)
  case 0
  then show ?case by simp
next
  case (Suc m)
  then have "3 * m \<le> length d" and "3 * m < length d" and "3 * m + 1 < length d"
    and "3 * m + 2 < length d" by simp_all
  with Suc.IH show ?case by (simp add: get_byte_def)
qed

text \<open>
  C10. \<open>interpret_rgb_8bit\<close> returns \<^verbatim>\<open>None\<close> exactly when the data are not
  \<open>width * height * 3\<close> bytes long; otherwise it returns \<open>width * height\<close> tuples, the
  \<open>k\<close>-th made of the bytes \<open>3k\<close>, \<open>3k + 1\<close> and \<open>3k + 2\<close>. None of its reads raises.
\<close>

theorem interpret_rgb_8bit_result:
  "(interpret_rgb_8bit w h d = Inr None \<longleftrightarrow> length d \<noteq> w * h * 3)
   \<and> (length d = w * h * 3 \<longrightarrow>
        (\<exists>ps. interpret_rgb_8bit w h d = Inr (Some ps) \<and> length ps = w * h
           \<and> (\<forall>k<w * h. ps ! k = (uint (d ! (3 * k)), uint (d ! (3 * k + 1)), uint (d ! (3 * k + 2))))))"
proof -
  have ok: "interpret_rgb_8bit w h d =
      Inr (Some (map (\<lambda>k. (uint (d ! (3 * k)), uint (d ! (3 * k + 1)), uint (d ! (3 * k + 2))))
                     [0..<w * h]))"
    if len: "length d = w * h * 3"
  proof -
    have "(length d + 2) div 3 = w * h" using len by simp
    then have rs: "range_step3 (length d) = map (\<lambda>k. 3 * k) [0..<w * h]"
      by (simp only: range_step3_def)
    have le: "3 * (w * h) \<le> length d" using len by simp
    show ?thesis
      unfolding interpret_rgb_8bit_def rs rgb_fold [OF le] using len by simp
  qed
  show ?thesis
  proof (intro conjI impI)
    show "interpret_rgb_8bit w h d = Inr None \<longleftrightarrow> length d \<noteq> w * h * 3"
    proof (cases "length d = w * h * 3")
      case True
      with ok show ?thesis by simp
    next
      case False
      then show ?thesis by (simp add: interpret_rgb_8bit_def)
    qed
  next
    assume "length d = w * h * 3"
    from ok [OF this]
    show "\<exists>ps. interpret_rgb_8bit w h d = Inr (Some ps) \<and> length ps = w * h
           \<and> (\<forall>k<w * h. ps ! k = (uint (d ! (3 * k)), uint (d ! (3 * k + 1)), uint (d ! (3 * k + 2))))"
      by simp
  qed
qed

text \<open>Five bytes for two pixels are refused; six give the two tuples.\<close>

theorem interpret_rgb_8bit_result_witness:
  "interpret_rgb_8bit 2 1 [255, 0, 0, 0, 255] = Inr None
   \<and> (\<exists>ps. interpret_rgb_8bit 2 1 [255, 0, 0, 0, 255, 0] = Inr (Some ps) \<and> length ps = 2
         \<and> ps ! 0 = (255, 0, 0) \<and> ps ! 1 = (0, 255, 0))"
proof -
  from interpret_rgb_8bit_result [of 2 1 "[255, 0, 0, 0, 255]"]
  have a: "interpret_rgb_8bit 2 1 [255, 0, 0, 0, 255] = Inr None" by simp
  from interpret_rgb_8bit_result [of 2 1 "[255, 0, 0, 0, 255, 0]"]
  obtain ps where ps: "interpret_rgb_8bit 2 1 [255, 0, 0, 0, 255, 0] = Inr (Some ps)"
    "length ps = 2"
    "\<forall>k<2. ps ! k = (uint ([255, 0, 0, 0, 255, 0 :: byte] ! (3 * k)),
                     uint ([255, 0, 0, 0, 255, 0 :: byte] ! (3 * k + 1)),
                     uint ([255, 0, 0, 0, 255, 0 :: byte] ! (3 * k + 2)))"
    by auto
  from ps(3) have "ps ! 0 = (255, 0, 0)" "ps ! 1 = (0, 255, 0)"
    by (simp_all add: nth_Cons')
  with a ps(1,2) show ?thesis by blast
qed

section \<open>C4: the Paeth rule\<close>

lemma uint_byte_of_int_and: "uint (byte_of_int (x AND 255)) = x mod 256"
  by (simp add: byte_of_int_def int_and_255 uint_word_of_int)

lemma read_prev_Inr:
  "(if P then get_byte xs j else Inr 0) = Inr v \<Longrightarrow> v = (if P then uint (xs ! j) else 0)"
  by (auto simp: get_byte_def split: if_splits)

lemma and_then_eq_Inr: "and_then r k = Inr y \<longleftrightarrow> (\<exists>x. r = Inr x \<and> k x = Inr y)"
  by (cases r) simp_all

text \<open>
  An invariant of a loop over \<^verbatim>\<open>range(k)\<close> that ran to its end without an exception.
\<close>

lemma fold_upt_invariant:
  assumes "fold (\<lambda>i acc. and_then acc (f i)) [0..<k] (Inr s0) = Inr s"
    and "I 0 s0"
    and "\<And>i t t'. i < k \<Longrightarrow> I i t \<Longrightarrow> f i t = Inr t' \<Longrightarrow> I (Suc i) t'"
  shows "I k s"
  using assms
proof (induction k arbitrary: s)
  case 0
  then show ?case by simp
next
  case (Suc k)
  from Suc.prems(1) obtain t where
    t: "fold (\<lambda>i acc. and_then acc (f i)) [0..<k] (Inr s0) = Inr t" and step: "f k t = Inr s"
    by (cases "fold (\<lambda>i acc. and_then acc (f i)) [0..<k] (Inr s0)") simp_all
  have "I k t"
    by (rule Suc.IH [OF t Suc.prems(2)]) (use Suc.prems(3) in auto)
  with step show ?case using Suc.prems(3) by blast
qed

lemma paeth_predictor_cases:
  "paeth_predictor a b c =
     (if \<bar>a + b - c - a\<bar> \<le> \<bar>a + b - c - b\<bar> \<and> \<bar>a + b - c - a\<bar> \<le> \<bar>a + b - c - c\<bar> then a
      else if \<bar>a + b - c - b\<bar> \<le> \<bar>a + b - c - c\<bar> then b else c)"
  by (simp add: paeth_predictor_def Let_def)


lemma paeth_step_Inr:
  assumes "(let a = if bpp \<le> k then uint (t ! (k - bpp)) else 0
         in and_then (if truthy prev then get_byte (the prev) k else Inr 0) (\<lambda>b.
            and_then (if truthy prev \<and> bpp \<le> k then get_byte (the prev) (k - bpp) else Inr 0) (\<lambda>c.
              let paeth = paeth_predictor a b c
              in Inr (t[k := byte_of_int ((uint (scan ! k) + paeth) AND 0xFF)])))) = Inr t'"
  shows "t' = t[k := byte_of_int ((uint (scan ! k)
            + paeth_predictor (if bpp \<le> k then uint (t ! (k - bpp)) else 0)
                              (if truthy prev then uint (the prev ! k) else 0)
                              (if truthy prev \<and> bpp \<le> k then uint (the prev ! (k - bpp)) else 0))
            AND 255)]"
proof -
  from assms obtain b c where
    b: "(if truthy prev then get_byte (the prev) k else Inr 0) = Inr b"
    and c: "(if truthy prev \<and> bpp \<le> k then get_byte (the prev) (k - bpp) else Inr 0) = Inr c"
    and upd: "Inr (t[k := byte_of_int ((uint (scan ! k)
            + paeth_predictor (if bpp \<le> k then uint (t ! (k - bpp)) else 0) b c) AND 255)]) = Inr t'"
    unfolding Let_def and_then_eq_Inr by blast
  from upd show ?thesis
    unfolding read_prev_Inr [OF b] read_prev_Inr [OF c] by simp
qed

lemma apply_paeth_filter_byte:
  assumes bpp: "0 < bpp"
    and run: "apply_paeth_filter scan w prev bpp = Inr out"
    and i: "i < length scan"
  shows "uint (out ! i) =
           (uint (scan ! i)
            + paeth_predictor (if bpp \<le> i then uint (out ! (i - bpp)) else 0)
                              (if truthy prev then uint (the prev ! i) else 0)
                              (if truthy prev \<and> bpp \<le> i then uint (the prev ! (i - bpp)) else 0))
           mod 256"
proof -
  define rule where "rule t j \<longleftrightarrow> uint (t ! j) =
           (uint (scan ! j)
            + paeth_predictor (if bpp \<le> j then uint (t ! (j - bpp)) else 0)
                              (if truthy prev then uint (the prev ! j) else 0)
                              (if truthy prev \<and> bpp \<le> j then uint (the prev ! (j - bpp)) else 0))
           mod 256" for t :: "byte list" and j
  define I where "I k t \<longleftrightarrow> length t = length scan \<and> (\<forall>j<k. rule t j)"
    for k and t :: "byte list"
  have "I (length scan) out"
  proof (rule fold_upt_invariant [where I = I and s = out and k = "length scan" and ?s0.0 = scan])
    show "fold (\<lambda>i acc. and_then acc (\<lambda>filtered_scanline.
             let a = (if i \<ge> bpp
                      then uint (filtered_scanline ! (i - bpp)) else 0)
             in and_then (if truthy prev
                          then get_byte (the prev) i else Inr 0) (\<lambda>b.
                and_then (if truthy prev \<and> i \<ge> bpp
                          then get_byte (the prev) (i - bpp)
                          else Inr 0) (\<lambda>c.
                  let paeth = paeth_predictor a b c
                  in Inr (filtered_scanline[i := byte_of_int
                            ((uint (scan ! i) + paeth) AND 0xFF)])))))
          [0..<length scan] (Inr scan) = Inr out"
      using run unfolding apply_paeth_filter_def .
  next
    show "I 0 scan" unfolding I_def by simp
  next
    fix k and t t' :: "byte list"
    assume k: "k < length scan" and inv: "I k t"
      and step: "(let a = if bpp \<le> k then uint (t ! (k - bpp)) else 0
         in and_then (if truthy prev then get_byte (the prev) k else Inr 0) (\<lambda>b.
            and_then (if truthy prev \<and> bpp \<le> k then get_byte (the prev) (k - bpp) else Inr 0) (\<lambda>c.
              let paeth = paeth_predictor a b c
              in Inr (t[k := byte_of_int ((uint (scan ! k) + paeth) AND 0xFF)])))) = Inr t'"
    from inv have len: "length t = length scan" and old: "\<forall>j<k. rule t j"
      unfolding I_def by blast+
    note t' = paeth_step_Inr [OF step]
    have len': "length t' = length scan" unfolding t' using len by simp
    have same: "t' ! j = t ! j" if "j < k" for j
      unfolding t' using that by simp
    have new: "uint (t' ! k) = (uint (scan ! k)
            + paeth_predictor (if bpp \<le> k then uint (t ! (k - bpp)) else 0)
                              (if truthy prev then uint (the prev ! k) else 0)
                              (if truthy prev \<and> bpp \<le> k then uint (the prev ! (k - bpp)) else 0))
            mod 256"
      unfolding t' using k len by (simp only: nth_list_update_eq uint_byte_of_int_and)
    have "rule t' j" if "j < Suc k" for j
    proof (cases "j = k")
      case True
      have "bpp \<le> k \<Longrightarrow> t' ! (k - bpp) = t ! (k - bpp)"
        using bpp by (intro same) simp
      then have "rule t' k"
        unfolding rule_def new by (cases "bpp \<le> k") (simp_all only: if_True if_False)
      with True show ?thesis by blast
    next
      case False
      with that have j: "j < k" by simp
      then have jb: "j - bpp < k" by simp
      have "rule t' j \<longleftrightarrow> rule t j"
        unfolding rule_def same [OF j] same [OF jb] ..
      moreover from old j have "rule t j" by blast
      ultimately show ?thesis by blast
    qed
    with len' show "I (Suc k) t'" unfolding I_def by blast
  qed
  with i have "rule out i" unfolding I_def by blast
  then show ?thesis unfolding rule_def .
qed

text \<open>
  C4, as amended. \<open>paeth_predictor a b c\<close> is one of \<open>a\<close>, \<open>b\<close>, \<open>c\<close> (the third
  candidate is \<open>c\<close>, not \<open>a + b - c\<close>), none of the three is closer to the predictor
  \<open>a + b - c\<close>, and of equally close ones \<open>a\<close> is taken before \<open>b\<close> before \<open>c\<close>;
  for \<open>a = b = c = 10\<close> it is 10. Every byte that \<open>apply_paeth_filter\<close> returns is
  \<open>(x + paeth_predictor a b c) mod 256\<close>, where \<open>x\<close> is the filtered byte, \<open>a\<close> the
  returned byte \<open>bytes_per_pixel\<close> positions to the left (0 for the leftmost ones) and
  \<open>b\<close>, \<open>c\<close> the bytes of the previous-scanline argument at the position and to its
  left (0 without a previous scanline).
\<close>

theorem paeth_rule:
  "(paeth_predictor a b c = a \<or> paeth_predictor a b c = b \<or> paeth_predictor a b c = c)
   \<and> \<bar>(a + b - c) - paeth_predictor a b c\<bar> \<le> \<bar>(a + b - c) - a\<bar>
   \<and> \<bar>(a + b - c) - paeth_predictor a b c\<bar> \<le> \<bar>(a + b - c) - b\<bar>
   \<and> \<bar>(a + b - c) - paeth_predictor a b c\<bar> \<le> \<bar>(a + b - c) - c\<bar>
   \<and> (\<bar>(a + b - c) - a\<bar> \<le> \<bar>(a + b - c) - b\<bar> \<and> \<bar>(a + b - c) - a\<bar> \<le> \<bar>(a + b - c) - c\<bar>
        \<longrightarrow> paeth_predictor a b c = a)
   \<and> (\<not> (\<bar>(a + b - c) - a\<bar> \<le> \<bar>(a + b - c) - b\<bar> \<and> \<bar>(a + b - c) - a\<bar> \<le> \<bar>(a + b - c) - c\<bar>)
        \<and> \<bar>(a + b - c) - b\<bar> \<le> \<bar>(a + b - c) - c\<bar>
        \<longrightarrow> paeth_predictor a b c = b)
   \<and> (\<not> (\<bar>(a + b - c) - a\<bar> \<le> \<bar>(a + b - c) - b\<bar> \<and> \<bar>(a + b - c) - a\<bar> \<le> \<bar>(a + b - c) - c\<bar>)
        \<and> \<not> \<bar>(a + b - c) - b\<bar> \<le> \<bar>(a + b - c) - c\<bar>
        \<longrightarrow> paeth_predictor a b c = c)
   \<and> paeth_predictor 10 10 10 = 10
   \<and> (0 < bpp \<and> apply_paeth_filter scan w prev bpp = Inr out \<and> i < length scan
        \<longrightarrow> uint (out ! i) =
             (uint (scan ! i)
              + paeth_predictor (if bpp \<le> i then uint (out ! (i - bpp)) else 0)
                                (if truthy prev then uint (the prev ! i) else 0)
                                (if truthy prev \<and> bpp \<le> i then uint (the prev ! (i - bpp)) else 0))
             mod 256)"
proof (intro conjI impI)
  show "paeth_predictor a b c = a \<or> paeth_predictor a b c = b \<or> paeth_predictor a b c = c"
    by (simp add: paeth_predictor_cases)
  show "\<bar>(a + b - c) - paeth_predictor a b c\<bar> \<le> \<bar>(a + b - c) - a\<bar>"
    unfolding paeth_predictor_cases by (simp split: if_splits) linarith?
  show "\<bar>(a + b - c) - paeth_predictor a b c\<bar> \<le> \<bar>(a + b - c) - b\<bar>"
    unfolding paeth_predictor_cases by (simp split: if_splits) linarith?
  show "\<bar>(a + b - c) - paeth_predictor a b c\<bar> \<le> \<bar>(a + b - c) - c\<bar>"
    unfolding paeth_predictor_cases by (simp split: if_splits) linarith?
  show "paeth_predictor 10 10 10 = 10"
    by (simp add: paeth_predictor_cases)
next
  assume "\<bar>(a + b - c) - a\<bar> \<le> \<bar>(a + b - c) - b\<bar> \<and> \<bar>(a + b - c) - a\<bar> \<le> \<bar>(a + b - c) - c\<bar>"
  then show "paeth_predictor a b c = a"
    unfolding paeth_predictor_cases by (simp only: if_True if_False simp_thms)
next
  assume "\<not> (\<bar>(a + b - c) - a\<bar> \<le> \<bar>(a + b - c) - b\<bar> \<and> \<bar>(a + b - c) - a\<bar> \<le> \<bar>(a + b - c) - c\<bar>)
        \<and> \<bar>(a + b - c) - b\<bar> \<le> \<bar>(a + b - c) - c\<bar>"
  then show "paeth_predictor a b c = b"
    unfolding paeth_predictor_cases by (simp only: if_True if_False simp_thms)
next
  assume "\<not> (\<bar>(a + b - c) - a\<bar> \<le> \<bar>(a + b - c) - b\<bar> \<and> \<bar>(a + b - c) - a\<bar> \<le> \<bar>(a + b - c) - c\<bar>)
        \<and> \<not> \<bar>(a + b - c) - b\<bar> \<le> \<bar>(a + b - c) - c\<bar>"
  then show "paeth_predictor a b c = c"
    unfolding paeth_predictor_cases by (simp only: if_True if_False simp_thms)
next
  assume "0 < bpp \<and> apply_paeth_filter scan w prev bpp = Inr out \<and> i < length scan"
  then show "uint (out ! i) =
             (uint (scan ! i)
              + paeth_predictor (if bpp \<le> i then uint (out ! (i - bpp)) else 0)
                                (if truthy prev then uint (the prev ! i) else 0)
                                (if truthy prev \<and> bpp \<le> i then uint (the prev ! (i - bpp)) else 0))
             mod 256"
    using apply_paeth_filter_byte [of bpp scan w prev out i] by blast
qed

text \<open>
  One instance for each of the three selections, and a row of two pixels above which
  a previous scanline stands.
\<close>

lemma paeth_run:
  "apply_paeth_filter [1, 2, 3, 250, 5, 6] 2 (Some [10, 20, 30, 40, 50, 60]) 3
     = Inr [11, 22, 33, 34, 55, 66]"
  by (simp add: defilter_eval)

theorem paeth_rule_witness:
  "paeth_predictor 10 10 10 = 10 \<and> paeth_predictor 11 40 10 = 40 \<and> paeth_predictor 4 0 2 = 2
   \<and> uint ([11, 22, 33, 34, 55, 66 :: byte] ! 3)
       = (uint ([1, 2, 3, 250, 5, 6 :: byte] ! 3) + paeth_predictor 11 40 10) mod 256"
  using paeth_rule [where a = 10 and b = 10 and c = 10 and bpp = 3 and w = 2 and i = 3
      and scan = "[1, 2, 3, 250, 5, 6]" and prev = "Some [10, 20, 30, 40, 50, 60]"
      and out = "[11, 22, 33, 34, 55, 66]"]
    paeth_rule [where a = 11 and b = 40 and c = 10 and bpp = 3 and w = 2 and i = 3
      and scan = "[1, 2, 3, 250, 5, 6]" and prev = "Some [10, 20, 30, 40, 50, 60]"
      and out = "[11, 22, 33, 34, 55, 66]"]
    paeth_rule [where a = 4 and b = 0 and c = 2 and bpp = 3 and w = 2 and i = 3
      and scan = "[1, 2, 3, 250, 5, 6]" and prev = "Some [10, 20, 30, 40, 50, 60]"
      and out = "[11, 22, 33, 34, 55, 66]"]
    paeth_run
  by (simp add: truthy_def)

text \<open>
  C4 as stated fails: for \<open>a = 1\<close>, \<open>b = 2\<close>, \<open>c = 0\<close> the predictor is 3; of the
  candidates \<open>a\<close>, \<open>b\<close>, \<open>a + b - c\<close> the closest is \<open>a + b - c = 3\<close> itself, and the
  code returns \<open>b = 2\<close>.
\<close>

theorem paeth_as_worded_counterexample:
  "paeth_predictor 1 2 0 = 2 \<and> paeth_as_worded 1 2 0 = 3"
  by (simp add: paeth_predictor_def paeth_as_worded_def)

section \<open>Facts about the chunk loop\<close>

text \<open>
  The loop's equation is unfolded one round at a time: on a complete chunk a round
  looks at the type and the payload and goes on behind the four checksum bytes; on a
  chunk whose payload is cut short it stops.
\<close>

declare read_chunks.simps [simp del]
declare same_but_crc.simps [simp del]

lemma read_chunks_complete:
  assumes "length lenb = 4" and "length ctype = 4" and "length payload = be_uint lenb"
    and "length crc = 4"
  shows "read_chunks vars (lenb @ ctype @ payload @ crc @ rest) =
     and_then (decode_ascii ctype) (\<lambda>chunk_type_str.
        if chunk_type_str = ascii ''IHDR'' then
          and_then (unpack_ihdr payload) (\<lambda>h. read_chunks (vars\<lparr>header := Some h\<rparr>) rest)
        else if chunk_type_str = ascii ''IDAT'' then
          read_chunks (vars\<lparr>idat := idat vars @ payload\<rparr>) rest
        else if chunk_type_str = ascii ''IEND'' then Inr (Some vars)
        else read_chunks vars rest)"
  using assms by (subst read_chunks.simps) (simp cong: if_cong)


lemma split_chunk:
  assumes "n + 12 \<le> length s"
  shows "s = take 4 s @ take 4 (drop 4 s) @ take n (drop 8 s) @ take 4 (drop (n + 8) s)
             @ drop (n + 12) s"
proof -
  have "drop (n + 8) s = take 4 (drop (n + 8) s) @ drop (n + 12) s"
    using append_take_drop_id [of 4 "drop (n + 8) s"] by (simp add: add.commute)
  moreover have "drop 8 s = take n (drop 8 s) @ drop (n + 8) s"
    using append_take_drop_id [of n "drop 8 s"] by simp
  moreover have "drop 4 s = take 4 (drop 4 s) @ drop 8 s"
    using append_take_drop_id [of 4 "drop 4 s"] by simp
  moreover have "s = take 4 s @ drop 4 s" by simp
  ultimately show ?thesis by metis
qed

lemma chunk_parts_equal:
  assumes "take (n + 8) s = take (n + 8) t"
  shows "take 4 s = take 4 t" and "take 4 (drop 4 s) = take 4 (drop 4 t)"
    and "take n (drop 8 s) = take n (drop 8 t)"
proof -
  from assms have "take 4 (take (n + 8) s) = take 4 (take (n + 8) t)" by simp
  then show "take 4 s = take 4 t" by simp
  from assms have "take 4 (drop 4 (take (n + 8) s)) = take 4 (drop 4 (take (n + 8) t))" by simp
  then show "take 4 (drop 4 s) = take 4 (drop 4 t)" by (simp add: drop_take)
  from assms have "drop 8 (take (n + 8) s) = drop 8 (take (n + 8) t)" by simp
  then show "take n (drop 8 s) = take n (drop 8 t)" by (simp add: drop_take)
qed

lemma read_chunks_same_but_crc:
  "same_but_crc s t \<Longrightarrow> read_chunks vars s = read_chunks vars t"
proof (induction s t arbitrary: vars rule: same_but_crc.induct)
  case (1 s t)
  show ?case
  proof (cases "s = t")
    case True
    then show ?thesis by simp
  next
    case False
    define n where "n = be_uint (take 4 s)"
    from "1.prems" False have ls: "\<not> length s < n + 12" and lt: "\<not> length t < n + 12"
      and pre: "take (n + 8) s = take (n + 8) t"
      and rest: "same_but_crc (drop (n + 12) s) (drop (n + 12) t)"
      unfolding n_def by (subst (asm) same_but_crc.simps, simp split: if_splits)+
    note eq = chunk_parts_equal [OF pre]
    have IH: "read_chunks v (drop (n + 12) s) = read_chunks v (drop (n + 12) t)" for v
      using "1.IH" [OF False] ls lt rest unfolding n_def by blast
    define lenb where "lenb = take 4 s"
    define ctype where "ctype = take 4 (drop 4 s)"
    define payload where "payload = take n (drop 8 s)"
    from ls have "n + 12 \<le> length s" by simp
    from split_chunk [OF this]
    have s: "s = lenb @ ctype @ payload @ take 4 (drop (n + 8) s) @ drop (n + 12) s"
      unfolding lenb_def ctype_def payload_def .
    from lt have "n + 12 \<le> length t" by simp
    from split_chunk [OF this]
    have t: "t = lenb @ ctype @ payload @ take 4 (drop (n + 8) t) @ drop (n + 12) t"
      unfolding lenb_def ctype_def payload_def eq .
    have sizes: "length lenb = 4" "length ctype = 4" "length payload = be_uint lenb"
      "length (take 4 (drop (n + 8) s)) = 4" "length (take 4 (drop (n + 8) t)) = 4"
      using ls lt by (simp_all add: lenb_def ctype_def payload_def n_def)
    have "read_chunks vars (lenb @ ctype @ payload @ take 4 (drop (n + 8) s) @ drop (n + 12) s)
        = read_chunks vars (lenb @ ctype @ payload @ take 4 (drop (n + 8) t) @ drop (n + 12) t)"
      by (simp only: read_chunks_complete [OF sizes(1,2,3,4)]
          read_chunks_complete [OF sizes(1,2,3,5)] IH)
    then show ?thesis using s t by simp
  qed
qed

text \<open>The definitions a concrete run of \<open>read_png\<close> unfolds.\<close>

lemmas png_eval = read_png_def read_png_body_def file_read_def png_signature_def
  decode_ascii_def ascii_def unpack_ihdr_def be_uint_def
  zlib_decompress_stored_def adler32_def read_chunks.simps

section \<open>C9: the checksum bytes\<close>

text \<open>
  C9. \<open>read_png\<close> never verifies a checksum: two files with the same first eight
  bytes whose chunk sequences are identical except for the checksum fields of chunks
  give the same result, for every decompressor.
\<close>

theorem checksum_bytes_ignored:
  "take 8 f = take 8 g \<and> same_but_crc (drop 8 f) (drop 8 g)
     \<longrightarrow> read_png decompress (Some f) = read_png decompress (Some g)"
proof
  assume a: "take 8 f = take 8 g \<and> same_but_crc (drop 8 f) (drop 8 g)"
  then have "read_chunks \<lparr>header = None, idat = []\<rparr> (drop 8 f)
           = read_chunks \<lparr>header = None, idat = []\<rparr> (drop 8 g)"
    by (intro read_chunks_same_but_crc) simp
  with a show "read_png decompress (Some f) = read_png decompress (Some g)"
    by (simp add: read_png_def read_png_body_def file_read_def)
qed

text \<open>
  The 2 by 1 truecolor file of the end-to-end scenario, its image data in one stored
  block, first with its CRC-32 checksums and then with three wrong ones.
\<close>

lemma two_pixel_file:
  "read_png zlib_decompress_stored (Some
     [137, 80, 78, 71, 13, 10, 26, 10,
      0, 0, 0, 13, 73, 72, 68, 82, 0, 0, 0, 2, 0, 0, 0, 1, 8, 2, 0, 0, 0, 123, 64, 232, 221,
      0, 0, 0, 18, 73, 68, 65, 84, 120, 1, 1, 7, 0, 248, 255, 0, 255, 0, 0, 0, 255, 0,
        7, 255, 1, 255, 197, 14, 226, 106,
      0, 0, 0, 0, 73, 69, 78, 68, 174, 66, 96, 130])
   = Some (2, 1, 2, 8, [255, 0, 0, 0, 255, 0])"
  by (simp add: png_eval defilter_eval)

theorem checksum_bytes_ignored_witness:
  "read_png zlib_decompress_stored (Some
     [137, 80, 78, 71, 13, 10, 26, 10,
      0, 0, 0, 13, 73, 72, 68, 82, 0, 0, 0, 2, 0, 0, 0, 1, 8, 2, 0, 0, 0, 0, 0, 0, 0,
      0, 0, 0, 18, 73, 68, 65, 84, 120, 1, 1, 7, 0, 248, 255, 0, 255, 0, 0, 0, 255, 0,
        7, 255, 1, 255, 1, 2, 3, 4,
      0, 0, 0, 0, 73, 69, 78, 68, 255, 255, 255, 255])
   = Some (2, 1, 2, 8, [255, 0, 0, 0, 255, 0])"
proof -
  have "same_but_crc
     (drop 8 [137, 80, 78, 71, 13, 10, 26, 10,
      0, 0, 0, 13, 73, 72, 68, 82, 0, 0, 0, 2, 0, 0, 0, 1, 8, 2, 0, 0, 0, 123, 64, 232, 221,
      0, 0, 0, 18, 73, 68, 65, 84, 120, 1, 1, 7, 0, 248, 255, 0, 255, 0, 0, 0, 255, 0,
        7, 255, 1, 255, 197, 14, 226, 106,
      0, 0, 0, 0, 73, 69, 78, 68, 174, 66, 96, 130])
     (drop 8 [137, 80, 78, 71, 13, 10, 26, 10,
      0, 0, 0, 13, 73, 72, 68, 82, 0, 0, 0, 2, 0, 0, 0, 1, 8, 2, 0, 0, 0, 0, 0, 0, 0,
      0, 0, 0, 18, 73, 68, 65, 84, 120, 1, 1, 7, 0, 248, 255, 0, 255, 0, 0, 0, 255, 0,
        7, 255, 1, 255, 1, 2, 3, 4,
      0, 0, 0, 0, 73, 69, 78, 68, 255, 255, 255, 255])"
    by (simp add: same_but_crc.simps be_uint_def)
  with checksum_bytes_ignored [of
     "[137, 80, 78, 71, 13, 10, 26, 10,
      0, 0, 0, 13, 73, 72, 68, 82, 0, 0, 0, 2, 0, 0, 0, 1, 8, 2, 0, 0, 0, 123, 64, 232, 221,
      0, 0, 0, 18, 73, 68, 65, 84, 120, 1, 1, 7, 0, 248, 255, 0, 255, 0, 0, 0, 255, 0,
        7, 255, 1, 255, 197, 14, 226, 106,
      0, 0, 0, 0, 73, 69, 78, 68, 174, 66, 96, 130]"
     "[137, 80, 78, 71, 13, 10, 26, 10,
      0, 0, 0, 13, 73, 72, 68, 82, 0, 0, 0, 2, 0, 0, 0, 1, 8, 2, 0, 0, 0, 0, 0, 0, 0,
      0, 0, 0, 18, 73, 68, 65, 84, 120, 1, 1, 7, 0, 248, 255, 0, 255, 0, 0, 0, 255, 0,
        7, 255, 1, 255, 1, 2, 3, 4,
      0, 0, 0, 0, 73, 69, 78, 68, 255, 255, 255, 255]" zlib_decompress_stored]
  show ?thesis by (simp add: two_pixel_file)
qed

section \<open>C7: a chunk longer than the rest of the file\<close>








section \<open>C8: the bit depth and the colour type\<close>










end
